theory Spec2Isabelle
  imports Main "HOL-Library.Word"
begin

unbundle bit_operations_syntax

section \<open>The I/O benchmark \<open>iot.c\<close>: data\<close>

text \<open>
  \<open>unsigned\<close> is a 32-bit word, \<open>unsigned long long\<close> a 64-bit word; \<open>int\<close> values that
  are only compared with zero (file descriptors, the result of a work function, the
  \<open>term\<close> flag) are kept as integers.
\<close>

type_synonym u32 = "32 word"
type_synonym u64 = "64 word"

text \<open>The operation index \<open>opi\<close> takes the four values \<open>LinRd\<close>, \<open>RndRd\<close>, \<open>LinWr\<close>, \<open>RndWr\<close>
  built from the bits \<open>MFrnd\<close> and \<open>MFwrt\<close>.\<close>

definition MFrnd :: u32 where "MFrnd = 1"
definition MFwrt :: u32 where "MFwrt = 2"

datatype opclass = LinRd | RndRd | LinWr | RndWr

fun opi_code :: "opclass \<Rightarrow> u32" where
  "opi_code LinRd = 0"
| "opi_code RndRd = MFrnd"
| "opi_code LinWr = MFwrt"
| "opi_code RndWr = (MFrnd OR MFwrt)"

text \<open>The two function pointers of \<open>struct state\<close> name one of two functions each;
  \<open>calloc\<close> leaves them null.\<close>

datatype workfn_id = Wwriter | Wreader
datatype posfn_id = Randpos | Linpos

text \<open>\<open>struct state\<close>. The buffer pointer and the start time (a \<open>double\<close>) take no part in
  the control flow and are left out; the field \<open>i\<close> is called \<open>curidx\<close>, after its comment.\<close>

record state =
  fd :: int
  ioc :: u32
  workfn :: "workfn_id option"
  posfn :: "posfn_id option"
  opi :: opclass
  curidx :: u32
  bn :: u32

text \<open>What the process does to the outside world and to its synchronisation objects, in
  program order.\<close>

datatype effect =
    Sys_open bool u32
  | Sys_pread int u32 u64
  | Sys_pwrite int u32 u64
  | Mutex_lock
  | Mutex_unlock
  | Cond_signal
  | Cond_broadcast
  | Tioc_rw
  | Running_rw
  | Put_stderr string
  | Put_stdout string
  | Proc_exit int

text \<open>The globals that change while the workers run: the total I/O count \<open>tioc\<close>, the
  count \<open>running\<close>, the 48-bit state of the C library's \<open>drand48\<close> generator, and the
  effects so far.\<close>

record glob =
  tioc :: u32
  running :: u32
  xsubi :: "48 word"
  trace :: "effect list"

definition emit :: "effect list \<Rightarrow> glob \<Rightarrow> glob" where
  "emit es g = g\<lparr>trace := trace g @ es\<rparr>"

section \<open>Position generators\<close>

text \<open>\<open>lrand48\<close> and \<open>srand48\<close> belong to the C library; POSIX fixes them: the state is
  advanced by \<open>X := 0x5DEECE66D * X + 0xB\<close> modulo \<open>2^48\<close> and \<open>lrand48\<close> returns its upper
  31 bits; \<open>srand48 v\<close> puts the low 32 bits of \<open>v\<close> above the constant \<open>0x330E\<close>.\<close>

definition drand48_iterate :: "48 word \<Rightarrow> 48 word" where
  "drand48_iterate x = 0x5DEECE66D * x + 0xB"

definition lrand48 :: "48 word \<Rightarrow> u32 \<times> 48 word" where
  "lrand48 x = (let x' = drand48_iterate x in (ucast (drop_bit 17 x'), x'))"

definition srand48 :: "u64 \<Rightarrow> 48 word" where
  "srand48 v = push_bit 16 (ucast (ucast v :: u32)) OR 0x330E"

text \<open>\<open>randpos\<close>: \<open>n = lrand48(); return n % bc\<close>. The remainder by a zero \<open>bc\<close> traps
  (\<open>None\<close>).\<close>

definition randpos :: "u32 \<Rightarrow> state \<Rightarrow> glob \<Rightarrow> (u32 \<times> state \<times> glob) option" where
  "randpos bc s g =
     (let (n, x') = lrand48 (xsubi g); g' = g\<lparr>xsubi := x'\<rparr>
      in if bc = 0 then None else Some (n mod bc, s, g'))"

text \<open>\<open>linpos\<close>: \<open>if (s->bn >= bc) s->bn = 0; return s->bn++\<close>.\<close>

definition linpos :: "u32 \<Rightarrow> state \<Rightarrow> u32 \<times> state" where
  "linpos bc s =
     (let s1 = (if bn s \<ge> bc then s\<lparr>bn := 0\<rparr> else s)
      in (bn s1, s1\<lparr>bn := bn s1 + 1\<rparr>))"

text \<open>The call \<open>s->posfn(s)\<close>; a null pointer traps.\<close>

definition call_posfn :: "u32 \<Rightarrow> state \<Rightarrow> glob \<Rightarrow> (u32 \<times> state \<times> glob) option" where
  "call_posfn bc s g =
     (case posfn s of
        None \<Rightarrow> None
      | Some Randpos \<Rightarrow> randpos bc s g
      | Some Linpos \<Rightarrow> (let (b, s') = linpos bc s in Some (b, s', g)))"

text \<open>Consecutive calls of one generator, with the values returned.\<close>

fun linpos_calls :: "u32 \<Rightarrow> nat \<Rightarrow> state \<Rightarrow> u32 list \<times> state" where
  "linpos_calls bc 0 s = ([], s)"
| "linpos_calls bc (Suc n) s =
     (let (b, s1) = linpos bc s; (bs, s2) = linpos_calls bc n s1 in (b # bs, s2))"

fun randpos_calls :: "u32 \<Rightarrow> nat \<Rightarrow> state \<Rightarrow> glob \<Rightarrow> (u32 list \<times> state \<times> glob) option" where
  "randpos_calls bc 0 s g = Some ([], s, g)"
| "randpos_calls bc (Suc n) s g =
     (case randpos bc s g of
        None \<Rightarrow> None
      | Some (b, s1, g1) \<Rightarrow>
          (case randpos_calls bc n s1 g1 of
             None \<Rightarrow> None
           | Some (bs, s2, g2) \<Rightarrow> Some (b # bs, s2, g2)))"

text \<open>The value returned by the \<open>k\<close>-th call of \<open>lrand48\<close> (counting from 0) after the
  generator was in state \<open>x\<close>.\<close>

definition lrand48_nth :: "48 word \<Rightarrow> nat \<Rightarrow> u32" where
  "lrand48_nth x k = fst (lrand48 ((drand48_iterate ^^ k) x))"

section \<open>I/O operations\<close>

text \<open>\<open>wwriter\<close> and \<open>wreader\<close> issue one positioned transfer of \<open>bs\<close> bytes at offset
  \<open>(off_t)b * bs\<close> and return what the system call returned, as an \<open>int\<close>; that value \<open>r\<close>
  comes from the environment.\<close>

definition wwriter :: "u32 \<Rightarrow> state \<Rightarrow> u32 \<Rightarrow> int \<Rightarrow> glob \<Rightarrow> int \<times> glob" where
  "wwriter bs s b r g = (r, emit [Sys_pwrite (fd s) bs (ucast b * ucast bs)] g)"

definition wreader :: "u32 \<Rightarrow> state \<Rightarrow> u32 \<Rightarrow> int \<Rightarrow> glob \<Rightarrow> int \<times> glob" where
  "wreader bs s b r g = (r, emit [Sys_pread (fd s) bs (ucast b * ucast bs)] g)"

definition call_workfn :: "u32 \<Rightarrow> state \<Rightarrow> u32 \<Rightarrow> int \<Rightarrow> glob \<Rightarrow> (int \<times> glob) option" where
  "call_workfn bs s b r g =
     (case workfn s of
        None \<Rightarrow> None
      | Some Wwriter \<Rightarrow> Some (wwriter bs s b r g)
      | Some Wreader \<Rightarrow> Some (wreader bs s b r g))"

section \<open>Reporting and the shared counters\<close>

fun ion :: "opclass \<Rightarrow> string" where
  "ion LinRd = ''LinRd''"
| "ion RndRd = ''RndRd''"
| "ion LinWr = ''LinWr''"
| "ion RndWr = ''RndWr''"

datatype stream = Stdout | Stderr

text \<open>\<open>pst\<close>: the loop adds every worker's \<open>ioc\<close> to \<open>c[opi]\<close> (and a rate, a \<open>double\<close>, to
  \<open>r[opi]\<close>, left out); the \<open>fprintf\<close> that would print them is commented out, so nothing is
  written to \<open>f\<close>. The result is the array \<open>c\<close> at the end and the text written.\<close>

definition pst_add :: "u32 list \<Rightarrow> state \<Rightarrow> u32 list" where
  "pst_add c s = (let k = unat (opi_code (opi s)) in c[k := c ! k + ioc s])"

definition pst :: "stream \<Rightarrow> u32 \<Rightarrow> state list \<Rightarrow> u32 list \<times> effect list" where
  "pst f ntt states = (foldl pst_add [0, 0, 0, 0] (take (unat ntt) states), [])"

text \<open>\<open>incc\<close>: \<open>if (!(++tioc % 1000)) pthread_cond_signal(&rncond)\<close>.\<close>

definition incc :: "glob \<Rightarrow> glob" where
  "incc g =
     (let g1 = emit [Tioc_rw] (g\<lparr>tioc := tioc g + 1\<rparr>)
      in if tioc g1 mod 1000 = 0 then emit [Cond_signal] g1 else g1)"

text \<open>\<open>decnr\<close>: lock, \<open>--running\<close>, unlock, broadcast.\<close>

definition decnr :: "glob \<Rightarrow> glob" where
  "decnr g =
     (let g1 = emit [Mutex_lock] g;
          g2 = emit [Running_rw] (g1\<lparr>running := running g1 - 1\<rparr>);
          g3 = emit [Mutex_unlock] g2
      in emit [Cond_broadcast] g3)"

text \<open>\<open>edie\<close> prints its argument (and the text of \<open>errno\<close>) and calls \<open>exit(1)\<close>: it does
  not return.\<close>

definition edie :: "string \<Rightarrow> glob \<Rightarrow> glob" where
  "edie what g = emit [Put_stderr what, Proc_exit 1] g"

text \<open>A shared variable is accessed under the mutex when every access in the sequence of
  effects falls between a lock and the next unlock.\<close>

fun guarded :: "bool \<Rightarrow> effect list \<Rightarrow> bool" where
  "guarded held [] = True"
| "guarded held (Mutex_lock # es) = guarded True es"
| "guarded held (Mutex_unlock # es) = guarded False es"
| "guarded held (Tioc_rw # es) = (held \<and> guarded held es)"
| "guarded held (Running_rw # es) = (held \<and> guarded held es)"
| "guarded held (e # es) = guarded held es"

section \<open>The worker\<close>

text \<open>What one iteration of the worker's loop observes: the value of the volatile flag
  \<open>term\<close> read at its top, and the value its work function returns.\<close>

record iter_env =
  term_rd :: int
  io_ret :: int

datatype brk = Brk_term | Brk_io | Brk_limit

datatype step = Continue state glob | Break brk state glob | Trap

text \<open>The body of \<open>for(;;)\<close> in \<open>worker\<close>.\<close>

definition worker_iter :: "u32 \<Rightarrow> u32 \<Rightarrow> u32 \<Rightarrow> iter_env \<Rightarrow> state \<Rightarrow> glob \<Rightarrow> step" where
  "worker_iter bs bc bm e s g =
     (if term_rd e \<noteq> 0 then Break Brk_term s g
      else case call_posfn bc s g of
        None \<Rightarrow> Trap
      | Some (b, s1, g1) \<Rightarrow>
          (case call_workfn bs s1 b (io_ret e) g1 of
             None \<Rightarrow> Trap
           | Some (r, g2) \<Rightarrow>
               if r < 0 then Break Brk_io s1 (emit [Put_stderr (ion (opi s1))] g2)
               else
                 (let s2 = s1\<lparr>ioc := ioc s1 + 1\<rparr>; g3 = incc g2
                  in if bm \<noteq> 0 \<and> ioc s2 \<ge> bm then Break Brk_limit s2 g3
                     else Continue s2 g3)))"

text \<open>The loop, run against the observations of its successive iterations. When they are
  used up and the loop has not left, it is still \<open>Running\<close>.\<close>

datatype loop_end = Running | Broke brk | Trapped

fun worker_loop ::
  "u32 \<Rightarrow> u32 \<Rightarrow> u32 \<Rightarrow> iter_env list \<Rightarrow> state \<Rightarrow> glob \<Rightarrow> loop_end \<times> state \<times> glob" where
  "worker_loop bs bc bm [] s g = (Running, s, g)"
| "worker_loop bs bc bm (e # es) s g =
     (case worker_iter bs bc bm e s g of
        Continue s' g' \<Rightarrow> worker_loop bs bc bm es s' g'
      | Break r s' g' \<Rightarrow> (Broke r, s', g')
      | Trap \<Rightarrow> (Trapped, s, g))"

text \<open>\<open>worker\<close>: choose the two functions from \<open>opi\<close>, open the target (\<open>open_ret\<close> is what
  \<open>open\<close> returns), on failure \<open>decnr\<close> and \<open>edie\<close>, otherwise the loop and \<open>decnr\<close>.\<close>

datatype outcome = Returned | Exited int | Killed | Unfinished

definition worker ::
  "string \<Rightarrow> u32 \<Rightarrow> u32 \<Rightarrow> u32 \<Rightarrow> u32 \<Rightarrow> int \<Rightarrow> iter_env list \<Rightarrow> state \<Rightarrow> glob
     \<Rightarrow> outcome \<times> state \<times> glob" where
  "worker fn oflags bs bc bm open_ret es s g =
     (let s1 = s\<lparr>workfn := Some (if opi_code (opi s) AND MFwrt \<noteq> 0 then Wwriter else Wreader)\<rparr>;
          s2 = s1\<lparr>posfn := Some (if opi_code (opi s1) AND MFrnd \<noteq> 0 then Randpos else Linpos)\<rparr>;
          g1 = emit [Sys_open (opi_code (opi s2) AND MFwrt \<noteq> 0) oflags] g;
          s3 = s2\<lparr>fd := open_ret\<rparr>
      in if fd s3 < 0 then (Exited 1, s3, edie fn (decnr g1))
         else case worker_loop bs bc bm es s3 g1 of
                (Running, s4, g4) \<Rightarrow> (Unfinished, s4, g4)
              | (Trapped, s4, g4) \<Rightarrow> (Killed, s4, g4)
              | (Broke r, s4, g4) \<Rightarrow> (Returned, s4, decnr g4))"

section \<open>The main thread\<close>

text \<open>The number of positioned reads and writes among a sequence of effects.\<close>

fun is_io :: "effect \<Rightarrow> bool" where
  "is_io (Sys_pread f n off) = True"
| "is_io (Sys_pwrite f n off) = True"
| "is_io e = False"

definition io_count :: "effect list \<Rightarrow> nat" where
  "io_count es = length (filter is_io es)"

text \<open>The globals when \<open>main\<close> starts: zero counters, and the generator state POSIX
  prescribes for a process that has not seeded it.\<close>

definition glob0 :: glob where
  "glob0 = \<lparr>tioc = 0, running = 0, xsubi = 0x1234ABCD330E, trace = []\<rparr>"

text \<open>The operation limit: \<open>bm\<close> is zero unless \<open>-i\<close> is given, and then the value of
  \<open>atoi\<close> converted to \<open>unsigned\<close>.\<close>

definition main_bm :: "int option \<Rightarrow> u32" where
  "main_bm i_arg = (case i_arg of None \<Rightarrow> 0 | Some v \<Rightarrow> word_of_int v)"

text \<open>The thread counts: \<open>ntt = nt[0] + nt[1] + nt[2] + nt[3]; if (!ntt) nt[LinRd] = ntt = 1\<close>.\<close>

definition main_counts :: "(opclass \<Rightarrow> u32) \<Rightarrow> (opclass \<Rightarrow> u32) \<times> u32" where
  "main_counts nt =
     (let ntt = nt LinRd + nt RndRd + nt LinWr + nt RndWr
      in if ntt = 0 then (nt(LinRd := 1), 1) else (nt, ntt))"

text \<open>The block count: the value of \<open>-n\<close> when it is not zero, otherwise the size \<open>sz\<close> of
  the target (an \<open>unsigned long long\<close>) divided by the block size and cut to 32 bits. The
  division by a zero block size traps.\<close>

definition main_bc :: "u32 \<Rightarrow> u32 \<Rightarrow> u64 \<Rightarrow> u32 option" where
  "main_bc bc bs sz =
     (if bc = 0 then (if bs = 0 then None else Some (ucast (sz div ucast bs)))
      else Some bc)"

text \<open>Seeding: \<open>if (nt[RndRd] || nt[RndWr]) srand48(0xfeda432)\<close>.\<close>

definition main_seed :: "(opclass \<Rightarrow> u32) \<Rightarrow> glob \<Rightarrow> glob" where
  "main_seed nt g =
     (if nt RndRd \<noteq> 0 \<or> nt RndWr \<noteq> 0 then g\<lparr>xsubi := srand48 0xfeda432\<rparr> else g)"

text \<open>The workers' states as \<open>calloc\<close> and the two creation loops leave them, in the order
  of creation, and \<open>running = ntt\<close>.\<close>

definition state0 :: state where
  "state0 = \<lparr>fd = 0, ioc = 0, workfn = None, posfn = None, opi = LinRd, curidx = 0, bn = 0\<rparr>"

definition main_spawn :: "(opclass \<Rightarrow> u32) \<Rightarrow> state list" where
  "main_spawn nt =
     concat (map (\<lambda>j. map (\<lambda>i. state0\<lparr>opi := j, curidx := of_nat i\<rparr>) [0..<unat (nt j)])
               [LinRd, RndRd, LinWr, RndWr])"

definition main_start :: "u32 \<Rightarrow> glob \<Rightarrow> glob" where
  "main_start ntt g = g\<lparr>running := ntt\<rparr>"

text \<open>One round of the reporting loop after \<open>pthread_cond_wait\<close> returns, and the end of
  \<open>main\<close> once \<open>running\<close> is zero.\<close>

definition main_report :: "u32 \<Rightarrow> state list \<Rightarrow> glob \<Rightarrow> glob" where
  "main_report ntt states g =
     (let g1 = emit [Put_stderr [CHR 0x0D]] g; (c, out) = pst Stderr ntt states
      in emit out g1)"

definition main_finish :: "u32 \<Rightarrow> state list \<Rightarrow> glob \<Rightarrow> int \<times> glob" where
  "main_finish ntt states g =
     (let g1 = emit [Put_stderr [CHR 0x0D]] g;
          (c, out) = pst Stdout ntt states;
          g2 = emit out g1;
          g3 = emit [Put_stdout [CHR 0x0A]] g2
      in (0, g3))"

text \<open>The text written to the standard output by a sequence of effects.\<close>

fun stdout_of :: "effect list \<Rightarrow> string" where
  "stdout_of [] = []"
| "stdout_of (Put_stdout t # es) = t @ stdout_of es"
| "stdout_of (e # es) = stdout_of es"

section \<open>Facts about the shared counters and the generators\<close>

lemma emit_simps [simp]:
  "tioc (emit es g) = tioc g" "running (emit es g) = running g"
  "xsubi (emit es g) = xsubi g" "trace (emit es g) = trace g @ es"
  by (simp_all add: emit_def)

lemma state0_simps [simp]:
  "fd state0 = 0" "ioc state0 = 0" "workfn state0 = None" "posfn state0 = None"
  "opi state0 = LinRd" "curidx state0 = 0" "bn state0 = 0"
  by (simp_all add: state0_def)

lemma glob0_simps [simp]:
  "tioc glob0 = 0" "running glob0 = 0" "trace glob0 = []"
  by (simp_all add: glob0_def)

lemma incc_simps:
  "tioc (incc g) = tioc g + 1" "running (incc g) = running g" "xsubi (incc g) = xsubi g"
  by (simp_all add: incc_def Let_def)

lemma incc_trace:
  "trace (incc g) = trace g @ (if (tioc g + 1) mod 1000 = 0 then [Tioc_rw, Cond_signal] else [Tioc_rw])"
  by (simp add: incc_def Let_def)

lemma decnr_simps:
  "tioc (decnr g) = tioc g" "running (decnr g) = running g - 1" "xsubi (decnr g) = xsubi g"
  "trace (decnr g) = trace g @ [Mutex_lock, Running_rw, Mutex_unlock, Cond_broadcast]"
  by (simp_all add: decnr_def Let_def)

section \<open>The linear generator\<close>

lemma linpos_step:
  assumes "0 < unat C" "unat (bn s) \<le> unat C"
  shows "linpos C s = (of_nat (unat (bn s) mod unat C), s\<lparr>bn := of_nat (unat (bn s) mod unat C + 1)\<rparr>)"
proof (cases "bn s \<ge> C")
  case True
  then have "unat (bn s) = unat C" using assms(2) by (simp add: word_le_nat_alt)
  then show ?thesis using True by (simp add: linpos_def)
next
  case False
  then have "unat (bn s) < unat C" by (simp add: word_le_nat_alt)
  then show ?thesis using False by (simp add: linpos_def)
qed

lemma unat_of_nat_mod_lt:
  assumes "0 < unat (C::u32)"
  shows "unat (of_nat (j mod unat C) :: u32) = j mod unat C"
    and "unat (of_nat (j mod unat C + 1) :: u32) = j mod unat C + 1"
proof -
  have a: "j mod unat C < unat C" using assms by simp
  have b: "unat C < 2 ^ 32" using unsigned_less [of C] by simp
  have c: "unat (of_nat n :: u32) = n" if "n < 2 ^ 32" for n
    using that by (simp add: unat_of_nat)
  show "unat (of_nat (j mod unat C) :: u32) = j mod unat C"
    using a b by (intro c) simp
  show "unat (of_nat (j mod unat C + 1) :: u32) = j mod unat C + 1"
    using a b by (intro c) simp
qed

lemma linpos_calls_mod:
  assumes "0 < unat C"
  shows "unat (bn s) \<le> unat C \<Longrightarrow>
    map unat (fst (linpos_calls C n s)) = map (\<lambda>i. (unat (bn s) + i) mod unat C) [0..<n]"
proof (induction n arbitrary: s)
  case 0
  then show ?case by simp
next
  case (Suc n)
  let ?j = "unat (bn s)"
  let ?s1 = "s\<lparr>bn := of_nat (?j mod unat C + 1)\<rparr>"
  have st: "linpos C s = (of_nat (?j mod unat C), ?s1)"
    using linpos_step [OF assms Suc.prems] .
  have b1: "unat (bn ?s1) = ?j mod unat C + 1"
    using unat_of_nat_mod_lt(2) [OF assms] by simp
  have le: "unat (bn ?s1) \<le> unat C"
    using b1 assms by (simp add: Suc_leI)
  have ih: "map unat (fst (linpos_calls C n ?s1)) = map (\<lambda>i. (unat (bn ?s1) + i) mod unat C) [0..<n]"
    using Suc.IH [OF le] .
  have shift: "map (\<lambda>i. (unat (bn ?s1) + i) mod unat C) [0..<n] = map (\<lambda>i. (?j + i) mod unat C) [1..<Suc n]"
  proof -
    have "map (\<lambda>i. (?j + i) mod unat C) [1..<Suc n] = map (\<lambda>i. (?j + i) mod unat C) (map Suc [0..<n])"
      by (simp only: map_Suc_upt One_nat_def)
    also have "\<dots> = map (\<lambda>i. (?j + Suc i) mod unat C) [0..<n]"
      by (simp add: comp_def)
    also have "\<dots> = map (\<lambda>i. (unat (bn ?s1) + i) mod unat C) [0..<n]"
    proof (rule map_cong [OF refl])
      fix i
      have "(?j + Suc i) mod unat C = ((?j mod unat C) + Suc i) mod unat C"
        by (rule mod_add_left_eq [symmetric])
      also have "(?j mod unat C) + Suc i = unat (bn ?s1) + i"
        by (simp only: b1)
      finally show "(?j + Suc i) mod unat C = (unat (bn ?s1) + i) mod unat C" .
    qed
    finally show ?thesis by simp
  qed
  have hd: "unat (of_nat (?j mod unat C) :: u32) = (?j + 0) mod unat C"
    using unat_of_nat_mod_lt(1) [OF assms] by simp
  have "map unat (fst (linpos_calls C (Suc n) s)) = ((?j + 0) mod unat C) # map (\<lambda>i. (?j + i) mod unat C) [1..<Suc n]"
    using st ih shift hd by (simp add: case_prod_beta)
  also have "\<dots> = map (\<lambda>i. (?j + i) mod unat C) [0..<Suc n]"
    by (simp add: upt_conv_Cons del: upt_Suc)
  finally show ?case .
qed

lemma map_mod_block: "map (\<lambda>i. i mod c) [k * c..<k * c + c] = [0..<c]"
  by (rule nth_equalityI) auto

lemma map_mod_blocks: "map (\<lambda>i. i mod c) [0..<m * c] = concat (replicate m [0..<c])"
proof (induction m)
  case 0
  then show ?case by simp
next
  case (Suc m)
  have "[0..<Suc m * c] = [0..<m * c] @ [m * c..<m * c + c]"
    using upt_add_eq_append [of 0 "m * c" c] by (simp add: add.commute)
  moreover have "replicate (Suc m) [0..<c] = replicate m [0..<c] @ [[0..<c]]"
    by (simp add: replicate_append_same)
  ultimately show ?case using Suc map_mod_block [of c m]
    by (simp del: replicate_Suc)
qed

text \<open>Claim C3. Started with its cursor at 0, the linear generator called \<open>C\<close> times in a
  row returns 0, 1, ..., \<open>C - 1\<close>, each value below \<open>C\<close> once and none skipped, and any
  number \<open>m\<close> of such rounds returns that same sequence \<open>m\<close> times over.\<close>

theorem linpos_full_cycles:
  assumes "bn s = 0"
  shows "map unat (fst (linpos_calls C (m * unat C) s)) = concat (replicate m [0..<unat C])"
proof (cases "unat C = 0")
  case True
  then show ?thesis by simp
next
  case False
  then have pos: "0 < unat C" by simp
  have "map unat (fst (linpos_calls C (m * unat C) s)) = map (\<lambda>i. (unat (bn s) + i) mod unat C) [0..<m * unat C]"
    by (rule linpos_calls_mod [OF pos]) (simp add: assms)
  then show ?thesis using map_mod_blocks [of "unat C" m] by (simp add: assms)
qed

theorem linpos_full_cycles_witness:
  "bn state0 = 0 \<and> map unat (fst (linpos_calls 3 (2 * unat (3::u32)) state0)) =
     concat (replicate 2 [0..<unat (3::u32)])"
  using linpos_full_cycles [where s = state0 and C = 3 and m = 2] by simp

section \<open>One iteration of the worker and its loop\<close>

lemma linpos_fields:
  "linpos bc s = (b, s') \<Longrightarrow>
     ioc s' = ioc s \<and> workfn s' = workfn s \<and> posfn s' = posfn s \<and> opi s' = opi s \<and> fd s' = fd s"
  by (auto simp: linpos_def Let_def split: if_splits)

lemma randpos_fields:
  "randpos bc s g = Some (b, s', g') \<Longrightarrow>
     s' = s \<and> tioc g' = tioc g \<and> running g' = running g \<and> trace g' = trace g"
  by (auto simp: randpos_def Let_def split: if_splits prod.splits)

lemma call_posfn_fields:
  assumes "call_posfn bc s g = Some (b, s', g')"
  shows "ioc s' = ioc s" "workfn s' = workfn s" "posfn s' = posfn s" "opi s' = opi s" "fd s' = fd s"
    "tioc g' = tioc g" "running g' = running g" "trace g' = trace g"
  using assms linpos_fields randpos_fields
  by (auto simp: call_posfn_def split: option.splits posfn_id.splits prod.splits) blast+

lemma call_posfn_defined:
  assumes "posfn s = Some p" "p = Randpos \<longrightarrow> bc \<noteq> 0"
  shows "\<exists>b s' g'. call_posfn bc s g = Some (b, s', g')"
  using assms
  by (cases p) (auto simp: call_posfn_def randpos_def Let_def split: prod.splits)

lemma io_count_append [simp]: "io_count (xs @ ys) = io_count xs + io_count ys"
  by (simp add: io_count_def)

lemma call_workfn_fields:
  assumes "call_workfn bs s b r g = Some (r', g')"
  shows "r' = r" "tioc g' = tioc g" "running g' = running g" "xsubi g' = xsubi g"
    "io_count (trace g') = io_count (trace g) + 1"
  using assms
  by (auto simp: call_workfn_def wwriter_def wreader_def io_count_def
      split: option.splits workfn_id.splits)

lemma call_workfn_defined:
  assumes "workfn s = Some w"
  shows "\<exists>g'. call_workfn bs s b r g = Some (r, g')"
  using assms by (cases w) (auto simp: call_workfn_def wwriter_def wreader_def)


lemma worker_iter_ok:
  assumes "term_rd e = 0" "0 \<le> io_ret e" "posfn s = Some p" "p = Randpos \<longrightarrow> bc \<noteq> 0"
    "workfn s = Some w"
  shows "\<exists>s' g'. worker_iter bs bc bm e s g =
            (if bm \<noteq> 0 \<and> bm \<le> ioc s + 1 then Break Brk_limit s' g' else Continue s' g')
          \<and> ioc s' = ioc s + 1 \<and> posfn s' = posfn s \<and> workfn s' = workfn s \<and> opi s' = opi s
          \<and> tioc g' = tioc g + 1 \<and> running g' = running g
          \<and> io_count (trace g') = io_count (trace g) + 1"
proof -
  obtain b s1 g1 where p: "call_posfn bc s g = Some (b, s1, g1)"
    using call_posfn_defined [OF assms(3,4)] by blast
  note f1 = call_posfn_fields [OF p]
  have "workfn s1 = Some w" using f1 assms(5) by simp
  then obtain g2 where w: "call_workfn bs s1 b (io_ret e) g1 = Some (io_ret e, g2)"
    using call_workfn_defined by blast
  note f2 = call_workfn_fields [OF w]
  let ?s2 = "s1\<lparr>ioc := ioc s1 + 1\<rparr>"
  have "worker_iter bs bc bm e s g =
          (if bm \<noteq> 0 \<and> bm \<le> ioc s + 1 then Break Brk_limit ?s2 (incc g2) else Continue ?s2 (incc g2))"
    using assms(1,2) p w f1(1) by (simp add: worker_iter_def Let_def)
  moreover have "ioc ?s2 = ioc s + 1" "posfn ?s2 = posfn s" "workfn ?s2 = workfn s" "opi ?s2 = opi s"
    using f1 by simp_all
  moreover have "tioc (incc g2) = tioc g + 1" "running (incc g2) = running g"
    using f1 f2 by (simp_all add: incc_simps)
  moreover have "io_count (trace (incc g2)) = io_count (trace g) + 1"
    using f1(8) f2(5) by (simp add: incc_trace io_count_def)
  ultimately show ?thesis by blast
qed

lemma worker_iter_no_limit: "worker_iter bs bc 0 e s g \<noteq> Break Brk_limit s' g'"
  by (auto simp: worker_iter_def Let_def split: option.splits if_splits)

lemma worker_loop_no_limit: "fst (worker_loop bs bc 0 es s g) \<noteq> Broke Brk_limit"
proof (induction es arbitrary: s g)
  case Nil
  then show ?case by simp
next
  case (Cons e es)
  show ?case
  proof (cases "worker_iter bs bc 0 e s g")
    case (Continue s' g')
    then show ?thesis using Cons.IH by simp
  next
    case (Break r s' g')
    then have "r \<noteq> Brk_limit" using worker_iter_no_limit by metis
    then show ?thesis using Break by simp
  next
    case Trap
    then show ?thesis by simp
  qed
qed

lemma worker_loop_unlimited:
  assumes "\<forall>e \<in> set es. term_rd e = 0 \<and> 0 \<le> io_ret e"
    "posfn s = Some p" "p = Randpos \<longrightarrow> bc \<noteq> 0" "workfn s = Some w"
  shows "\<exists>s' g'. worker_loop bs bc 0 es s g = (Running, s', g')
           \<and> ioc s' = ioc s + of_nat (length es)
           \<and> io_count (trace g') = io_count (trace g) + length es \<and> running g' = running g"
  using assms
proof (induction es arbitrary: s g)
  case Nil
  then show ?case by simp
next
  case (Cons e es)
  have e: "term_rd e = 0" "0 \<le> io_ret e" using Cons.prems(1) by simp_all
  obtain s1 g1 where it: "worker_iter bs bc 0 e s g = Continue s1 g1"
    and f: "ioc s1 = ioc s + 1" "posfn s1 = posfn s" "workfn s1 = workfn s"
    and f': "io_count (trace g1) = io_count (trace g) + 1" "running g1 = running g"
    using worker_iter_ok [OF e Cons.prems(2,3,4), of bs 0 g] by auto
  have "\<exists>s' g'. worker_loop bs bc 0 es s1 g1 = (Running, s', g')
           \<and> ioc s' = ioc s1 + of_nat (length es)
           \<and> io_count (trace g') = io_count (trace g1) + length es \<and> running g' = running g1"
    using Cons.prems f by (intro Cons.IH) simp_all
  then show ?case using it f(1) f' by (auto simp: add.assoc)
qed

lemma worker_loop_limit:
  assumes "bm \<noteq> 0" "\<forall>e \<in> set es. term_rd e = 0 \<and> 0 \<le> io_ret e"
    "posfn s = Some p" "p = Randpos \<longrightarrow> bc \<noteq> 0" "workfn s = Some w"
    "unat (ioc s) < unat bm" "unat bm \<le> unat (ioc s) + length es"
  shows "\<exists>s' g'. worker_loop bs bc bm es s g = (Broke Brk_limit, s', g') \<and> ioc s' = bm
           \<and> io_count (trace g') = io_count (trace g) + (unat bm - unat (ioc s))
           \<and> running g' = running g"
  using assms
proof (induction es arbitrary: s g)
  case Nil
  then show ?case by simp
next
  case (Cons e es)
  have e: "term_rd e = 0" "0 \<le> io_ret e" using Cons.prems(2) by simp_all
  obtain s1 g1 where it: "worker_iter bs bc bm e s g =
        (if bm \<noteq> 0 \<and> bm \<le> ioc s + 1 then Break Brk_limit s1 g1 else Continue s1 g1)"
    and f: "ioc s1 = ioc s + 1" "posfn s1 = posfn s" "workfn s1 = workfn s"
    and f': "io_count (trace g1) = io_count (trace g) + 1" "running g1 = running g"
    using worker_iter_ok [OF e Cons.prems(3,4,5), of bs bm g] by auto
  have "unat bm < 2 ^ 32" using unsigned_less [of bm] by simp
  then have lt: "unat (ioc s) + 1 < 2 ^ 32"
    using Cons.prems(6) by simp
  have u1: "unat (ioc s + 1) = unat (ioc s) + 1"
    using lt by (simp add: unat_word_ariths)
  show ?case
  proof (cases "bm \<le> ioc s + 1")
    case True
    then have "unat bm \<le> unat (ioc s) + 1" using u1 by (simp add: word_le_nat_alt)
    then have eq: "unat bm = unat (ioc s + 1)" using Cons.prems(6) u1 by simp
    then have "ioc s1 = bm" using f(1) by (simp add: word_unat_eq_iff)
    moreover have "unat bm - unat (ioc s) = 1" using eq u1 by simp
    ultimately show ?thesis using it True Cons.prems(1) f' by simp
  next
    case False
    then have lt1: "unat (ioc s1) < unat bm" using u1 f(1) by (simp add: word_le_nat_alt)
    have "\<exists>s' g'. worker_loop bs bc bm es s1 g1 = (Broke Brk_limit, s', g') \<and> ioc s' = bm
           \<and> io_count (trace g') = io_count (trace g1) + (unat bm - unat (ioc s1))
           \<and> running g' = running g1"
      using Cons.prems f lt1 u1 by (intro Cons.IH) simp_all
    moreover have "1 + (unat bm - unat (ioc s1)) = unat bm - unat (ioc s)"
      using lt1 f(1) u1 by simp
    ultimately show ?thesis using it False f' by auto
  qed
qed

lemma worker_setup_posfn:
  "(if opi_code c AND MFrnd \<noteq> 0 then Randpos else Linpos) = Randpos \<longleftrightarrow> c = RndRd \<or> c = RndWr"
  by (cases c) (simp_all add: MFrnd_def MFwrt_def)


section \<open>The worker's I/O results\<close>

text \<open>A read of 100 bytes where 8192 were asked for: the iteration counts the operation
  and goes on.\<close>

theorem short_transfer_counterexample:
  "(0::int) \<le> 100 \<and> (100::int) < uint (8192::u32)
   \<and> worker_iter 8192 128 0 \<lparr>term_rd = 0, io_ret = 100\<rparr>
       (state0\<lparr>workfn := Some Wreader, posfn := Some Linpos, fd := 3\<rparr>) glob0
     = Continue (state0\<lparr>workfn := Some Wreader, posfn := Some Linpos, fd := 3, ioc := 1, bn := 1\<rparr>)
         (glob0\<lparr>tioc := 1, trace := [Sys_pread 3 8192 0, Tioc_rw]\<rparr>)"
  by (simp add: worker_iter_def call_posfn_def linpos_def call_workfn_def wreader_def
      incc_def emit_def state0_def glob0_def Let_def)

text \<open>Claim C2, amended. An iteration leaves the loop with an I/O error exactly when the
  work function returns a negative value; it has then issued one transfer and counted
  nothing. Any other result, a short transfer included (a count from 0 up to but not
  including the block size), is a completed operation: the iteration has issued exactly
  one transfer, the local counter and the shared total have gone up by one, and the loop
  goes on, or ends at the operation limit exactly when the limit is not zero and the
  counter has reached it. No transfer is issued a second time.\<close>

theorem worker_iter_io_result:
  assumes "term_rd e = 0" "posfn s = Some p" "p = Randpos \<longrightarrow> bc \<noteq> 0" "workfn s = Some w"
  shows "((\<exists>s' g'. worker_iter bs bc bm e s g = Break Brk_io s' g') \<longleftrightarrow> io_ret e < 0)
       \<and> (io_ret e < 0 \<longrightarrow>
            (\<exists>s' g'. worker_iter bs bc bm e s g = Break Brk_io s' g'
                    \<and> ioc s' = ioc s \<and> tioc g' = tioc g
                    \<and> io_count (trace g') = io_count (trace g) + 1))
       \<and> (0 \<le> io_ret e \<longrightarrow>
            (\<exists>s' g'. worker_iter bs bc bm e s g =
                       (if bm \<noteq> 0 \<and> bm \<le> ioc s + 1 then Break Brk_limit s' g'
                        else Continue s' g')
                    \<and> ioc s' = ioc s + 1 \<and> tioc g' = tioc g + 1
                    \<and> io_count (trace g') = io_count (trace g) + 1))"
proof (cases "io_ret e < 0")
  case True
  obtain b s1 g1 where p: "call_posfn bc s g = Some (b, s1, g1)"
    using call_posfn_defined [OF assms(2,3)] by blast
  note f1 = call_posfn_fields [OF p]
  have "workfn s1 = Some w" using f1(2) assms(4) by simp
  then obtain g2 where w: "call_workfn bs s1 b (io_ret e) g1 = Some (io_ret e, g2)"
    using call_workfn_defined by blast
  note f2 = call_workfn_fields [OF w]
  let ?g3 = "emit [Put_stderr (ion (opi s1))] g2"
  have it: "worker_iter bs bc bm e s g = Break Brk_io s1 ?g3"
    using assms(1) p w True by (simp add: worker_iter_def)
  have "ioc s1 = ioc s" "tioc ?g3 = tioc g" using f1 f2 by simp_all
  moreover have "io_count (trace ?g3) = io_count (trace g) + 1"
    using f1(8) f2(5) by (simp add: io_count_def)
  ultimately have "\<exists>s' g'. worker_iter bs bc bm e s g = Break Brk_io s' g'
                    \<and> ioc s' = ioc s \<and> tioc g' = tioc g
                    \<and> io_count (trace g') = io_count (trace g) + 1"
    using it by blast
  then show ?thesis using True by auto
next
  case False
  then have nn: "0 \<le> io_ret e" by simp
  obtain s' g' where it: "worker_iter bs bc bm e s g =
        (if bm \<noteq> 0 \<and> bm \<le> ioc s + 1 then Break Brk_limit s' g' else Continue s' g')"
    and f: "ioc s' = ioc s + 1" "tioc g' = tioc g + 1"
      "io_count (trace g') = io_count (trace g) + 1"
    using worker_iter_ok [OF assms(1) nn assms(2,3,4), of bs bm g] by auto
  have "\<not> (\<exists>s' g'. worker_iter bs bc bm e s g = Break Brk_io s' g')"
    using it by (auto split: if_splits)
  moreover have "\<exists>s' g'. worker_iter bs bc bm e s g =
                       (if bm \<noteq> 0 \<and> bm \<le> ioc s + 1 then Break Brk_limit s' g'
                        else Continue s' g')
                    \<and> ioc s' = ioc s + 1 \<and> tioc g' = tioc g + 1
                    \<and> io_count (trace g') = io_count (trace g) + 1"
    using it f by blast
  ultimately show ?thesis using False by blast
qed

theorem worker_iter_io_result_witness:
  "(\<exists>s' g'. worker_iter 8192 128 0 \<lparr>term_rd = 0, io_ret = 100\<rparr>
        (state0\<lparr>workfn := Some Wreader, posfn := Some Linpos\<rparr>) glob0 = Continue s' g'
       \<and> ioc s' = 1 \<and> tioc g' = 1 \<and> io_count (trace g') = 1)
   \<and> (\<exists>s' g'. worker_iter 8192 128 0 \<lparr>term_rd = 0, io_ret = - 1\<rparr>
        (state0\<lparr>workfn := Some Wreader, posfn := Some Linpos\<rparr>) glob0 = Break Brk_io s' g'
       \<and> ioc s' = 0 \<and> tioc g' = 0 \<and> io_count (trace g') = 1)"
proof -
  let ?s = "state0\<lparr>workfn := Some Wreader, posfn := Some Linpos\<rparr>"
  have h: "posfn ?s = Some Linpos" "Linpos = Randpos \<longrightarrow> (128::u32) \<noteq> 0" "workfn ?s = Some Wreader"
    by simp_all
  have a: "\<exists>s' g'. worker_iter 8192 128 0 \<lparr>term_rd = 0, io_ret = 100\<rparr> ?s glob0 = Continue s' g'
       \<and> ioc s' = 1 \<and> tioc g' = 1 \<and> io_count (trace g') = 1"
    using worker_iter_io_result [where e = "\<lparr>term_rd = 0, io_ret = 100\<rparr>" and s = ?s
        and p = Linpos and w = Wreader and bc = 128 and bs = 8192 and bm = 0 and g = glob0] h
    by (simp add: io_count_def)
  have b: "\<exists>s' g'. worker_iter 8192 128 0 \<lparr>term_rd = 0, io_ret = - 1\<rparr> ?s glob0 = Break Brk_io s' g'
       \<and> ioc s' = 0 \<and> tioc g' = 0 \<and> io_count (trace g') = 1"
    using worker_iter_io_result [where e = "\<lparr>term_rd = 0, io_ret = - 1\<rparr>" and s = ?s
        and p = Linpos and w = Wreader and bc = 128 and bs = 8192 and bm = 0 and g = glob0] h
    by (simp add: io_count_def)
  show ?thesis using a b by blast
qed

section \<open>The operation limit\<close>

text \<open>With \<open>-i 0\<close> the worker does not stop after zero operations: after two successful
  operations it has counted two and is still in its loop.\<close>

theorem limit_zero_counterexample:
  "main_bm (Some 0) = 0
   \<and> fst (worker ''f'' 0 8192 128 0 3
        [\<lparr>term_rd = 0, io_ret = 8192\<rparr>, \<lparr>term_rd = 0, io_ret = 8192\<rparr>] state0 glob0) = Unfinished
   \<and> ioc (fst (snd (worker ''f'' 0 8192 128 0 3
        [\<lparr>term_rd = 0, io_ret = 8192\<rparr>, \<lparr>term_rd = 0, io_ret = 8192\<rparr>] state0 glob0))) = 2"
  by (simp add: main_bm_def worker_def worker_iter_def call_posfn_def linpos_def call_workfn_def
      wreader_def incc_def emit_def state0_def glob0_def Let_def MFrnd_def MFwrt_def)

text \<open>Claim C5, amended. For every operation limit \<open>N\<close> other than zero and every worker
  that starts with a zero counter and whose position generator is defined (a block count
  other than zero, or a linear class), if the target opens, no work function returns a
  negative value and the stop flag is never read as set, the worker issues exactly \<open>N\<close>
  reads or writes, its local counter is \<open>N\<close>, and it returns.\<close>

theorem worker_limit_exact:
  assumes "bm \<noteq> 0" "0 \<le> open_ret" "ioc s = 0"
    "\<forall>e \<in> set es. term_rd e = 0 \<and> 0 \<le> io_ret e" "unat bm \<le> length es"
    "bc \<noteq> 0 \<or> opi s = LinRd \<or> opi s = LinWr"
  shows "\<exists>s' g'. worker fn oflags bs bc bm open_ret es s g = (Returned, s', g') \<and> ioc s' = bm
           \<and> io_count (trace g') = io_count (trace g) + unat bm"
proof -
  let ?w = "if opi_code (opi s) AND MFwrt \<noteq> 0 then Wwriter else Wreader"
  let ?p = "if opi_code (opi s) AND MFrnd \<noteq> 0 then Randpos else Linpos"
  let ?s3 = "s\<lparr>workfn := Some ?w, posfn := Some ?p, fd := open_ret\<rparr>"
  let ?g1 = "emit [Sys_open (opi_code (opi s) AND MFwrt \<noteq> 0) oflags] g"
  have p: "?p = Randpos \<longrightarrow> bc \<noteq> 0"
    using assms(6) worker_setup_posfn [of "opi s"] by auto
  have pos: "0 < unat bm" using assms(1) by (simp add: unat_gt_0)
  have "\<exists>s' g'. worker_loop bs bc bm es ?s3 ?g1 = (Broke Brk_limit, s', g') \<and> ioc s' = bm
           \<and> io_count (trace g') = io_count (trace ?g1) + (unat bm - unat (ioc ?s3))
           \<and> running g' = running ?g1"
    using assms(1,4,5) p pos by (intro worker_loop_limit [where p = ?p and w = ?w]) (simp_all add: assms(3))
  then obtain s' g' where l: "worker_loop bs bc bm es ?s3 ?g1 = (Broke Brk_limit, s', g')"
    and r: "ioc s' = bm" "io_count (trace g') = io_count (trace ?g1) + (unat bm - unat (ioc ?s3))"
    by blast
  have "worker fn oflags bs bc bm open_ret es s g = (Returned, s', decnr g')"
    using assms(2) l by (simp add: worker_def Let_def)
  moreover have "io_count (trace (decnr g')) = io_count (trace g) + unat bm"
    using r(2) by (simp add: decnr_simps assms(3) io_count_def)
  ultimately show ?thesis using r(1) by blast
qed

theorem worker_limit_exact_witness:
  "\<exists>s' g'. worker ''f'' 0 8192 128 2 3
       [\<lparr>term_rd = 0, io_ret = 8192\<rparr>, \<lparr>term_rd = 0, io_ret = 8192\<rparr>] state0 glob0
       = (Returned, s', g') \<and> ioc s' = 2
       \<and> io_count (trace g') = io_count (trace glob0) + unat (2::u32)"
  using worker_limit_exact [where bm = 2 and open_ret = 3 and s = state0
      and es = "[\<lparr>term_rd = 0, io_ret = 8192\<rparr>, \<lparr>term_rd = 0, io_ret = 8192\<rparr>]"
      and bc = 128 and fn = "''f''" and oflags = 0 and bs = 8192 and g = glob0]
  by simp

text \<open>Claim C10. When \<open>-i\<close> is absent or given as 0, \<open>bm\<close> is zero, and then the loop never
  leaves through the limit check, whatever its state and whatever it observes; a worker
  whose target opens, whose operations all succeed and whose stop flag stays clear is
  still running after any number of operations, all of them counted.\<close>

theorem limit_zero_unlimited:
  assumes "i_arg = None \<or> i_arg = Some 0" "bm = main_bm i_arg"
  shows "fst (worker_loop bs bc bm es s g) \<noteq> Broke Brk_limit
       \<and> (0 \<le> open_ret \<and> (\<forall>e \<in> set es. term_rd e = 0 \<and> 0 \<le> io_ret e)
            \<and> (bc \<noteq> 0 \<or> opi s = LinRd \<or> opi s = LinWr)
          \<longrightarrow> (\<exists>s' g'. worker fn oflags bs bc bm open_ret es s g = (Unfinished, s', g')
                 \<and> ioc s' = ioc s + of_nat (length es)
                 \<and> io_count (trace g') = io_count (trace g) + length es))"
proof -
  have bm: "bm = 0" using assms by (auto simp: main_bm_def)
  let ?w = "if opi_code (opi s) AND MFwrt \<noteq> 0 then Wwriter else Wreader"
  let ?p = "if opi_code (opi s) AND MFrnd \<noteq> 0 then Randpos else Linpos"
  let ?s3 = "s\<lparr>workfn := Some ?w, posfn := Some ?p, fd := open_ret\<rparr>"
  let ?g1 = "emit [Sys_open (opi_code (opi s) AND MFwrt \<noteq> 0) oflags] g"
  have a: "fst (worker_loop bs bc bm es s g) \<noteq> Broke Brk_limit"
    unfolding bm by (rule worker_loop_no_limit)
  have b: "\<exists>s' g'. worker fn oflags bs bc bm open_ret es s g = (Unfinished, s', g')
                 \<and> ioc s' = ioc s + of_nat (length es)
                 \<and> io_count (trace g') = io_count (trace g) + length es"
    if h: "0 \<le> open_ret" "\<forall>e \<in> set es. term_rd e = 0 \<and> 0 \<le> io_ret e"
      "bc \<noteq> 0 \<or> opi s = LinRd \<or> opi s = LinWr"
  proof -
    have p: "?p = Randpos \<longrightarrow> bc \<noteq> 0"
      using h(3) worker_setup_posfn [of "opi s"] by auto
    have "\<exists>s' g'. worker_loop bs bc 0 es ?s3 ?g1 = (Running, s', g')
           \<and> ioc s' = ioc ?s3 + of_nat (length es)
           \<and> io_count (trace g') = io_count (trace ?g1) + length es \<and> running g' = running ?g1"
      using h(2) p by (intro worker_loop_unlimited [where p = ?p and w = ?w]) simp_all
    then obtain s' g' where l: "worker_loop bs bc 0 es ?s3 ?g1 = (Running, s', g')"
      and r: "ioc s' = ioc ?s3 + of_nat (length es)"
        "io_count (trace g') = io_count (trace ?g1) + length es"
      by blast
    have "worker fn oflags bs bc bm open_ret es s g = (Unfinished, s', g')"
      using h(1) l by (simp add: worker_def Let_def bm)
    moreover have "io_count (trace g') = io_count (trace g) + length es"
      using r(2) by (simp add: io_count_def)
    ultimately show ?thesis using r(1) by simp
  qed
  show ?thesis using a b by blast
qed

theorem limit_zero_unlimited_witness:
  "fst (worker_loop 8192 128 (main_bm (Some 0))
        [\<lparr>term_rd = 0, io_ret = 8192\<rparr>, \<lparr>term_rd = 0, io_ret = 8192\<rparr>] state0 glob0)
     \<noteq> Broke Brk_limit
   \<and> (\<exists>s' g'. worker ''f'' 0 8192 128 (main_bm (Some 0)) 3
        [\<lparr>term_rd = 0, io_ret = 8192\<rparr>, \<lparr>term_rd = 0, io_ret = 8192\<rparr>] state0 glob0
        = (Unfinished, s', g')
        \<and> ioc s' = ioc state0
             + of_nat (length [\<lparr>term_rd = 0, io_ret = 8192\<rparr>, \<lparr>term_rd = 0, io_ret = 8192\<rparr>])
        \<and> io_count (trace g') = io_count (trace glob0)
             + length [\<lparr>term_rd = 0, io_ret = 8192\<rparr>, \<lparr>term_rd = 0, io_ret = 8192\<rparr>])"
proof -
  have h: "Some (0::int) = None \<or> Some (0::int) = Some 0" by simp
  have e: "(0::int) \<le> 3
      \<and> (\<forall>e \<in> set [\<lparr>term_rd = 0, io_ret = 8192\<rparr>, \<lparr>term_rd = 0, io_ret = 8192\<rparr>].
            term_rd e = 0 \<and> 0 \<le> io_ret e)
      \<and> ((128::u32) \<noteq> 0 \<or> opi state0 = LinRd \<or> opi state0 = LinWr)" by simp
  show ?thesis
    using limit_zero_unlimited [OF h refl, where bs = 8192 and bc = 128
      and es = "[\<lparr>term_rd = 0, io_ret = 8192\<rparr>, \<lparr>term_rd = 0, io_ret = 8192\<rparr>]"
      and s = state0 and g = glob0 and open_ret = 3 and fn = "''f''" and oflags = 0] e
    by blast
qed

section \<open>Failure to open the target\<close>

text \<open>Claim C7. When a worker's \<open>open\<close> fails, the worker ends the process with exit status
  1, and before that it has decremented \<open>running\<close> by one, under the mutex: the decrement
  comes before the message and the exit in the order of effects.\<close>

theorem worker_open_failure:
  assumes "open_ret < 0"
  shows "fst (worker fn oflags bs bc bm open_ret es s g) = Exited 1
       \<and> running (snd (snd (worker fn oflags bs bc bm open_ret es s g))) = running g - 1
       \<and> trace (snd (snd (worker fn oflags bs bc bm open_ret es s g))) =
           trace g @ [Sys_open (opi_code (opi s) AND MFwrt \<noteq> 0) oflags,
                      Mutex_lock, Running_rw, Mutex_unlock, Cond_broadcast,
                      Put_stderr fn, Proc_exit 1]"
  using assms by (simp add: worker_def Let_def edie_def decnr_simps)

theorem worker_open_failure_witness:
  "fst (worker ''f'' 0 8192 128 0 (- 1) [] state0 (glob0\<lparr>running := 1\<rparr>)) = Exited 1
   \<and> running (snd (snd (worker ''f'' 0 8192 128 0 (- 1) [] state0 (glob0\<lparr>running := 1\<rparr>)))) = 0
   \<and> trace (snd (snd (worker ''f'' 0 8192 128 0 (- 1) [] state0 (glob0\<lparr>running := 1\<rparr>)))) =
       [Sys_open False 0, Mutex_lock, Running_rw, Mutex_unlock, Cond_broadcast,
        Put_stderr ''f'', Proc_exit 1]"
  using worker_open_failure [where open_ret = "- 1" and fn = "''f''" and oflags = 0
      and bs = 8192 and bc = 128 and bm = 0 and es = "[]" and s = state0
      and g = "glob0\<lparr>running := 1\<rparr>"]
  by (simp add: MFwrt_def)

section \<open>The final report\<close>

lemma sum_list_update_add:
  fixes c :: "'a::comm_monoid_add list"
  shows "k < length c \<Longrightarrow> sum_list (c[k := c ! k + v]) = sum_list c + v"
proof (induction c arbitrary: k)
  case Nil
  then show ?case by simp
next
  case (Cons x xs)
  show ?case
  proof (cases k)
    case 0
    then show ?thesis by (simp add: ac_simps)
  next
    case (Suc j)
    then show ?thesis using Cons by (simp add: ac_simps)
  qed
qed

lemma opi_code_less: "unat (opi_code c) < 4"
  by (cases c) (simp_all add: MFrnd_def MFwrt_def)

lemma pst_add_length [simp]: "length (pst_add c s) = length c"
  by (simp add: pst_add_def Let_def)

lemma pst_add_sum: "length c = 4 \<Longrightarrow> sum_list (pst_add c s) = sum_list c + ioc s"
  using opi_code_less [of "opi s"] by (simp add: pst_add_def Let_def sum_list_update_add)

lemma pst_fold_sum:
  "length c = 4 \<Longrightarrow> sum_list (foldl pst_add c sts) = sum_list c + sum_list (map ioc sts)"
proof (induction sts arbitrary: c)
  case Nil
  then show ?case by simp
next
  case (Cons s sts)
  have "sum_list (foldl pst_add (pst_add c s) sts) = sum_list (pst_add c s) + sum_list (map ioc sts)"
    using Cons.prems by (intro Cons.IH) simp
  then show ?case using pst_add_sum [OF Cons.prems] by (simp add: add.assoc)
qed

lemma stdout_of_append: "stdout_of (xs @ ys) = stdout_of xs @ stdout_of ys"
  by (induction xs rule: stdout_of.induct) simp_all

text \<open>With a local counter of 5, and again with 7, all that reaches the standard output at
  the end of \<open>main\<close> is a newline: no count is printed.\<close>

theorem final_report_counterexample:
  "sum_list (map ioc [state0\<lparr>ioc := 5\<rparr>]) = 5
   \<and> stdout_of (trace (snd (main_finish 1 [state0\<lparr>ioc := 5\<rparr>] glob0))) = [CHR 0x0A]
   \<and> sum_list (map ioc [state0\<lparr>ioc := 7\<rparr>]) = 7
   \<and> stdout_of (trace (snd (main_finish 1 [state0\<lparr>ioc := 7\<rparr>] glob0))) = [CHR 0x0A]"
  by (simp add: main_finish_def pst_def Let_def)

text \<open>Claim C1, amended. At completion \<open>main\<close> returns 0 after writing exactly one newline
  to the standard output, an empty line: \<open>pst\<close> writes nothing to its stream. The
  per-class counts that \<open>pst\<close> computes and does not print add up to the sum of the workers'
  local counters, in 32-bit arithmetic.\<close>

theorem final_report_empty_line:
  "fst (main_finish ntt sts g) = 0
   \<and> stdout_of (trace (snd (main_finish ntt sts g))) = stdout_of (trace g) @ [CHR 0x0A]
   \<and> snd (pst f ntt sts) = []
   \<and> sum_list (fst (pst f ntt sts)) = sum_list (map ioc (take (unat ntt) sts))"
  by (simp add: main_finish_def pst_def Let_def stdout_of_append pst_fold_sum)

theorem final_report_empty_line_witness:
  "fst (main_finish 1 [state0\<lparr>ioc := 5\<rparr>] glob0) = 0
   \<and> stdout_of (trace (snd (main_finish 1 [state0\<lparr>ioc := 5\<rparr>] glob0))) = [CHR 0x0A]
   \<and> snd (pst Stdout 1 [state0\<lparr>ioc := 5\<rparr>]) = []
   \<and> sum_list (fst (pst Stdout 1 [state0\<lparr>ioc := 5\<rparr>])) = 5"
  using final_report_empty_line [where ntt = 1 and sts = "[state0\<lparr>ioc := 5\<rparr>]"
      and g = glob0 and f = Stdout]
  by simp

section \<open>The shared total and the mutex\<close>

lemma incc_signal_iff:
  "Cond_signal \<in> set (drop (length (trace g)) (trace (incc g))) \<longleftrightarrow> tioc (incc g) mod 1000 = 0"
  by (simp add: incc_trace incc_simps)

lemma incc_from_unlocked: "trace g = [] \<Longrightarrow> \<not> guarded False (trace (incc g))"
  by (simp add: incc_trace)

lemma decnr_from_unlocked: "trace g = [] \<Longrightarrow> guarded False (trace (decnr g))"
  by (simp add: decnr_simps)

text \<open>Claim C6, at the 1000th operation. \<open>incc\<close> raises \<open>tioc\<close> from 999 to 1000 and signals
  the condition variable, as the claim says, but it never locks the mutex: the access to
  \<open>tioc\<close> is not under the lock, while \<open>decnr\<close> does lock it around \<open>running\<close>.\<close>

theorem incc_unlocked:
  "incc (glob0\<lparr>tioc := 999\<rparr>) = glob0\<lparr>tioc := 1000, trace := [Tioc_rw, Cond_signal]\<rparr>
   \<and> \<not> guarded False (trace (incc (glob0\<lparr>tioc := 999\<rparr>)))
   \<and> guarded False (trace (decnr glob0))"
  by (simp add: incc_def decnr_def emit_def glob0_def Let_def)

section \<open>The range of the block indices\<close>

lemma posfn_in_range:
  assumes "bc \<noteq> 0" "call_posfn bc s g = Some (b, s', g')"
  shows "b < bc"
proof -
  have pos: "0 < bc" using assms(1) by (simp add: word_greater_zero_iff)
  show ?thesis
  proof (cases "posfn s")
    case None
    then show ?thesis using assms(2) by (simp add: call_posfn_def)
  next
    case (Some p)
    show ?thesis
    proof (cases p)
      case Randpos
      then have "b = fst (lrand48 (xsubi g)) mod bc"
        using assms Some by (auto simp: call_posfn_def randpos_def Let_def split: prod.splits)
      then show ?thesis using pos by (simp add: word_mod_less_divisor)
    next
      case Linpos
      then have "b = (if bc \<le> bn s then 0 else bn s)"
        using assms Some by (auto simp: call_posfn_def linpos_def Let_def split: if_splits)
      then show ?thesis using pos by (auto simp: not_le)
    qed
  qed
qed

text \<open>Claim C4, for a target of 100 bytes and blocks of 8192 bytes without \<open>-n\<close>. The block
  count derived from the size is 0; the linear generator then returns 0, which is not
  below the block count, and the random generator divides by zero.\<close>

theorem zero_block_count_index:
  "main_bc 0 8192 100 = Some 0
   \<and> call_posfn 0 (state0\<lparr>posfn := Some Linpos\<rparr>) glob0
       = Some (0, state0\<lparr>posfn := Some Linpos, bn := 1\<rparr>, glob0)
   \<and> \<not> ((0::u32) < 0)
   \<and> call_posfn 0 (state0\<lparr>posfn := Some Randpos\<rparr>) glob0 = None"
  by (simp add: main_bc_def call_posfn_def linpos_def randpos_def state0_def Let_def
      split: prod.splits)

section \<open>The random generator\<close>

lemma randpos_step:
  "bc \<noteq> 0 \<Longrightarrow> randpos bc s g =
     Some (lrand48_nth (xsubi g) 0 mod bc, s, g\<lparr>xsubi := drand48_iterate (xsubi g)\<rparr>)"
  by (simp add: randpos_def lrand48_def lrand48_nth_def Let_def)

lemma lrand48_nth_Suc: "lrand48_nth (drand48_iterate x) j = lrand48_nth x (Suc j)"
  by (simp add: lrand48_nth_def funpow_swap1)

lemma randpos_calls_eq:
  "bc \<noteq> 0 \<Longrightarrow> randpos_calls bc k s g =
     Some (map (\<lambda>j. lrand48_nth (xsubi g) j mod bc) [0..<k], s,
           g\<lparr>xsubi := (drand48_iterate ^^ k) (xsubi g)\<rparr>)"
proof (induction k arbitrary: g)
  case 0
  then show ?case by simp
next
  case (Suc k)
  let ?g1 = "g\<lparr>xsubi := drand48_iterate (xsubi g)\<rparr>"
  have ih: "randpos_calls bc k s ?g1 =
     Some (map (\<lambda>j. lrand48_nth (xsubi ?g1) j mod bc) [0..<k], s,
           ?g1\<lparr>xsubi := (drand48_iterate ^^ k) (xsubi ?g1)\<rparr>)"
    using Suc.prems by (rule Suc.IH)
  have m: "map (\<lambda>j. lrand48_nth (xsubi g) j mod bc) [0..<Suc k] =
        lrand48_nth (xsubi g) 0 mod bc # map (\<lambda>j. lrand48_nth (xsubi ?g1) j mod bc) [0..<k]"
    by (simp only: map_upt_Suc) (simp add: lrand48_nth_Suc)
  have st: "?g1\<lparr>xsubi := (drand48_iterate ^^ k) (xsubi ?g1)\<rparr> =
        g\<lparr>xsubi := (drand48_iterate ^^ Suc k) (xsubi g)\<rparr>"
    by (simp add: funpow_swap1)
  show ?case
    using randpos_step [OF Suc.prems, of s g] ih
    by (simp only: randpos_calls.simps m st option.case prod.case)
qed

lemma randpos_zero: "randpos 0 s g = None"
  by (simp add: randpos_def Let_def split: prod.splits)

lemma srand48_value: "srand48 0xfeda432 = 0x0FEDA432330E"
  by (simp add: srand48_def)

lemma first_draws: "lrand48_nth 0x0FEDA432330E 0 = 398695443 \<and> lrand48_nth 0x0FEDA432330E 1 = 634253313"
  by (simp add: lrand48_nth_def lrand48_def drand48_iterate_def Let_def)

text \<open>Claim C8. Whenever a random class has a worker, \<open>main\<close> seeds the generator once,
  with the constant \<open>0xfeda432\<close>, whatever its state was before; the values that \<open>k\<close>
  consecutive calls of \<open>randpos\<close> return from there are given by the seed, the index of
  the call and the block count alone, so they are the same for any two runs with the same
  block count (with a block count of 0 every such run stops at its first call).\<close>

theorem random_draws_fixed:
  assumes "nt RndRd \<noteq> 0 \<or> nt RndWr \<noteq> 0"
  shows "xsubi (main_seed nt g) = srand48 0xfeda432
       \<and> map_option fst (randpos_calls bc k s (main_seed nt g)) =
           (if bc = 0 \<and> k \<noteq> 0 then None
            else Some (map (\<lambda>j. lrand48_nth (srand48 0xfeda432) j mod bc) [0..<k]))
       \<and> map_option fst (randpos_calls bc k s (main_seed nt g)) =
           map_option fst (randpos_calls bc k s' (main_seed nt g'))"
proof -
  have x: "xsubi (main_seed nt h) = srand48 0xfeda432" for h
    using assms by (auto simp: main_seed_def)
  have d: "map_option fst (randpos_calls bc k t (main_seed nt h)) =
           (if bc = 0 \<and> k \<noteq> 0 then None
            else Some (map (\<lambda>j. lrand48_nth (srand48 0xfeda432) j mod bc) [0..<k]))" for t h
  proof (cases "bc = 0")
    case True
    then show ?thesis by (cases k) (simp_all add: randpos_zero)
  next
    case False
    then show ?thesis by (simp add: randpos_calls_eq x)
  qed
  show ?thesis using x [of g] d [of s g] d [of s' g'] by simp
qed

theorem random_draws_fixed_witness:
  "((\<lambda>_. 0)(RndRd := 1)) RndRd \<noteq> (0::u32)
   \<and> xsubi (main_seed ((\<lambda>_. 0)(RndRd := 1)) glob0) = 0x0FEDA432330E
   \<and> map_option fst (randpos_calls 128 2 state0 (main_seed ((\<lambda>_. 0)(RndRd := 1)) glob0))
       = Some [19, 1]"
proof -
  let ?nt = "(\<lambda>_. 0)(RndRd := 1) :: opclass \<Rightarrow> u32"
  have nz: "?nt RndRd \<noteq> 0 \<or> ?nt RndWr \<noteq> 0" by simp
  have up: "[0..<2] = [0, Suc 0]" by (simp add: numeral_2_eq_2)
  have d0: "lrand48_nth 0x0FEDA432330E 0 mod 128 = 19"
    by (simp add: lrand48_nth_def lrand48_def drand48_iterate_def Let_def)
  have d1: "lrand48_nth 0x0FEDA432330E (Suc 0) mod 128 = 1"
    by (simp add: lrand48_nth_def lrand48_def drand48_iterate_def Let_def)
  have ev: "map (\<lambda>j. lrand48_nth (srand48 0xfeda432) j mod 128) [0..<2] = [19, 1]"
    unfolding up srand48_value using d0 d1 by simp
  have bc: "\<not> ((128::u32) = 0 \<and> (2::nat) \<noteq> 0)" by simp
  note t = random_draws_fixed [OF nz, where g = glob0 and bc = 128 and k = 2 and s = state0
        and s' = state0 and g' = glob0]
  have c1: "?nt RndRd \<noteq> 0" by simp
  have c2: "xsubi (main_seed ?nt glob0) = 0x0FEDA432330E"
    using conjunct1 [OF t] srand48_value by (rule trans)
  have c3: "map_option fst (randpos_calls 128 2 state0 (main_seed ?nt glob0)) = Some [19, 1]"
    using conjunct1 [OF conjunct2 [OF t]] unfolding if_not_P [OF bc] ev .
  show ?thesis using c1 c2 c3 by blast
qed

section \<open>The count of running workers\<close>

lemma decnr_funpow_running: "running ((decnr ^^ k) g) = running g - of_nat k"
  by (induction k) (simp_all add: decnr_simps)

lemma unat_sub_of_nat:
  fixes r :: u32
  assumes "k \<le> unat r"
  shows "unat (r - of_nat k) = unat r - k"
proof -
  have "unat r < 2 ^ 32" using unsigned_less [of r] by simp
  then have k: "unat (of_nat k :: u32) = k" using assms by (simp add: unat_of_nat)
  then have "(of_nat k :: u32) \<le> r" using assms by (simp add: word_le_nat_alt)
  then show ?thesis using k by (simp add: unat_sub)
qed

lemma posfn_workfn_running:
  assumes "call_posfn bc s g = Some (b, s1, g1)" "call_workfn bs s1 b r g1 = Some (r', g2)"
  shows "running g2 = running g"
  using call_posfn_fields(7) [OF assms(1)] call_workfn_fields(3) [OF assms(2)] by simp

lemma worker_iter_running:
  "worker_iter bs bc bm e s g = Continue s' g' \<Longrightarrow> running g' = running g"
  "worker_iter bs bc bm e s g = Break r s' g' \<Longrightarrow> running g' = running g"
  by (auto simp: worker_iter_def Let_def incc_simps posfn_workfn_running
      split: if_splits option.splits prod.splits)

lemma worker_loop_running: "running (snd (snd (worker_loop bs bc bm es s g))) = running g"
proof (induction es arbitrary: s g)
  case Nil
  then show ?case by simp
next
  case (Cons e es)
  show ?case
  proof (cases "worker_iter bs bc bm e s g")
    case (Continue s' g')
    then show ?thesis using Cons.IH [of s' g'] worker_iter_running(1) [OF Continue] by simp
  next
    case (Break r s' g')
    then show ?thesis using worker_iter_running(2) [OF Break] by simp
  next
    case Trap
    then show ?thesis by simp
  qed
qed

lemma worker_running:
  "running (snd (snd (worker fn oflags bs bc bm open_ret es s g))) =
     (if fst (worker fn oflags bs bc bm open_ret es s g) = Unfinished
         \<or> fst (worker fn oflags bs bc bm open_ret es s g) = Killed
      then running g else running g - 1)"
proof (cases "open_ret < 0")
  case True
  then show ?thesis by (simp add: worker_def Let_def edie_def decnr_simps)
next
  case False
  let ?s3 = "s\<lparr>workfn := Some (if opi_code (opi s) AND MFwrt \<noteq> 0 then Wwriter else Wreader),
               posfn := Some (if opi_code (opi s) AND MFrnd \<noteq> 0 then Randpos else Linpos),
               fd := open_ret\<rparr>"
  let ?g1 = "emit [Sys_open (opi_code (opi s) AND MFwrt \<noteq> 0) oflags] g"
  obtain l s4 g4 where l: "worker_loop bs bc bm es ?s3 ?g1 = (l, s4, g4)"
    by (cases "worker_loop bs bc bm es ?s3 ?g1") auto
  have r: "running g4 = running g"
    using worker_loop_running [of bs bc bm es ?s3 ?g1] l by simp
  show ?thesis using False l r
    by (cases l) (simp_all add: worker_def Let_def decnr_simps)
qed

lemma main_spawn_length:
  "length (main_spawn nt) = unat (nt LinRd) + unat (nt RndRd) + unat (nt LinWr) + unat (nt RndWr)"
  by (simp add: main_spawn_def)

lemma main_counts_threads:
  assumes "unat (nt_in LinRd) + unat (nt_in RndRd) + unat (nt_in LinWr) + unat (nt_in RndWr) < 2 ^ 32"
    "main_counts nt_in = (nt, ntt)"
  shows "length (main_spawn nt) = unat ntt"
proof -
  let ?sum = "nt_in LinRd + nt_in RndRd + nt_in LinWr + nt_in RndWr"
  have u: "unat ?sum = unat (nt_in LinRd) + unat (nt_in RndRd) + unat (nt_in LinWr) + unat (nt_in RndWr)"
    using assms(1) by (simp add: unat_word_ariths)
  show ?thesis
  proof (cases "?sum = 0")
    case True
    then have z: "unat (nt_in LinRd) = 0" "unat (nt_in RndRd) = 0" "unat (nt_in LinWr) = 0"
      "unat (nt_in RndWr) = 0" using u by simp_all
    have "nt = nt_in(LinRd := 1)" "ntt = 1"
      using assms(2) True by (auto simp: main_counts_def Let_def)
    then show ?thesis using z by (simp add: main_spawn_length)
  next
    case False
    then have "nt = nt_in" "ntt = ?sum"
      using assms(2) by (auto simp: main_counts_def Let_def)
    then show ?thesis using u by (simp add: main_spawn_length)
  qed
qed

text \<open>Claim C9. Let \<open>running\<close> be initialised to the number of worker threads that \<open>main\<close>
  creates. Then after \<open>k\<close> of them have called \<open>decnr\<close> the count is that number less
  \<open>k\<close>; it is not zero while a worker has yet to call, every further call lowers it, and
  it is zero once all have called. A worker changes \<open>running\<close> by exactly one \<open>decnr\<close>, on
  returning or on ending the process, and not at all before, so nothing touches the
  count after it has reached zero.\<close>

theorem running_counts_down:
  assumes "main_counts nt_in = (nt, ntt)" "length (main_spawn nt) = unat ntt"
    "k < length (main_spawn nt)"
  shows "running (main_start ntt g) = ntt
       \<and> unat (running ((decnr ^^ k) (main_start ntt g))) = length (main_spawn nt) - k
       \<and> unat (running (decnr ((decnr ^^ k) (main_start ntt g))))
           < unat (running ((decnr ^^ k) (main_start ntt g)))
       \<and> running ((decnr ^^ k) (main_start ntt g)) \<noteq> 0
       \<and> running ((decnr ^^ length (main_spawn nt)) (main_start ntt g)) = 0
       \<and> running (snd (snd (worker fn oflags bs bc bm open_ret es s h))) =
           (if fst (worker fn oflags bs bc bm open_ret es s h) = Unfinished
               \<or> fst (worker fn oflags bs bc bm open_ret es s h) = Killed
            then running h else running (decnr h))"
proof -
  let ?W = "length (main_spawn nt)"
  have r0: "running (main_start ntt g) = ntt" by (simp add: main_start_def)
  have rk: "unat (running ((decnr ^^ j) (main_start ntt g))) = ?W - j" if "j \<le> ?W" for j
    using that assms(2) by (simp add: decnr_funpow_running r0 unat_sub_of_nat)
  have a: "unat (running ((decnr ^^ k) (main_start ntt g))) = ?W - k"
    using rk [of k] assms(3) by simp
  have b: "unat (running (decnr ((decnr ^^ k) (main_start ntt g)))) = ?W - Suc k"
    using rk [of "Suc k"] assms(3) by simp
  have c: "running ((decnr ^^ k) (main_start ntt g)) \<noteq> 0"
    using a assms(3) by (auto simp: unat_eq_0 [symmetric] simp del: unat_eq_0)
  have d: "running ((decnr ^^ ?W) (main_start ntt g)) = 0"
    using rk [of ?W] by (simp add: unat_eq_0)
  have e: "unat (running (decnr ((decnr ^^ k) (main_start ntt g))))
           < unat (running ((decnr ^^ k) (main_start ntt g)))"
    using a b assms(3) by simp
  have w: "running (snd (snd (worker fn oflags bs bc bm open_ret es s h))) =
           (if fst (worker fn oflags bs bc bm open_ret es s h) = Unfinished
               \<or> fst (worker fn oflags bs bc bm open_ret es s h) = Killed
            then running h else running (decnr h))"
    using worker_running [of fn oflags bs bc bm open_ret es s h] by (simp add: decnr_simps)
  show ?thesis using r0 a e c d w by blast
qed

theorem running_counts_down_witness:
  "main_counts ((\<lambda>_. 0)(LinRd := 2)) = ((\<lambda>_. 0)(LinRd := 2), 2)
   \<and> length (main_spawn ((\<lambda>_. 0)(LinRd := 2))) = unat (2::u32)
   \<and> (1::nat) < length (main_spawn ((\<lambda>_. 0)(LinRd := 2)))
   \<and> running (main_start 2 glob0) = 2
   \<and> unat (running ((decnr ^^ 1) (main_start 2 glob0)))
       = length (main_spawn ((\<lambda>_. 0)(LinRd := 2))) - 1
   \<and> unat (running (decnr ((decnr ^^ 1) (main_start 2 glob0))))
       < unat (running ((decnr ^^ 1) (main_start 2 glob0)))
   \<and> running ((decnr ^^ 1) (main_start 2 glob0)) \<noteq> 0
   \<and> running ((decnr ^^ length (main_spawn ((\<lambda>_. 0)(LinRd := 2)))) (main_start 2 glob0)) = 0"
proof -
  let ?nt = "(\<lambda>_. 0)(LinRd := 2) :: opclass \<Rightarrow> u32"
  have h1: "main_counts ?nt = (?nt, 2)" by (simp add: main_counts_def)
  have h2: "length (main_spawn ?nt) = unat (2::u32)" by (simp add: main_spawn_length)
  have h3: "(1::nat) < length (main_spawn ?nt)" by (simp add: main_spawn_length)
  show ?thesis
    using running_counts_down [OF h1 h2 h3, where g = glob0 and fn = "''f''" and oflags = 0
        and bs = 8192 and bc = 128 and bm = 0 and open_ret = 3 and es = "[]" and s = state0
        and h = glob0] h1 h2 h3
    by blast
qed

end
